theory Spec2Isabelle
  imports Main "HOL-Library.Sublist"
begin

section \<open>Characters and strings\<close>

text \<open>
  The program works on Python \<open>str\<close> values. A string is modelled as a \<open>char list\<close>
  whose characters are read as the code points 0..255 (Latin-1); \<open>length\<close> then counts
  what Python's \<open>len\<close> counts. The three character tests below are the ones the
  \<open>re\<close> module and \<open>str.lower\<close> apply to code points of that range.
\<close>

definition ord :: "char \<Rightarrow> nat" where
  "ord c = of_char c"

definition is_space :: "char \<Rightarrow> bool" where
  \<comment> \<open>the class \<open>\s\<close> of a \<open>str\<close> pattern: tab, LF, VT, FF, CR, FS, GS, RS, US, space,
      NEL and the no-break space\<close>
  "is_space c = (let n = ord c in
     (9 \<le> n \<and> n \<le> 13) \<or> (28 \<le> n \<and> n \<le> 32) \<or> n = 133 \<or> n = 160)"


definition is_digit :: "char \<Rightarrow> bool" where
  \<comment> \<open>the class \<open>\d\<close>: the decimal digits\<close>
  "is_digit c = (let n = ord c in 48 \<le> n \<and> n \<le> 57)"

definition lower_char :: "char \<Rightarrow> char" where
  \<comment> \<open>\<open>str.lower\<close> on one code point: A..Z and the upper-case letters of Latin-1
      (192..222 without the multiplication sign 215) move up by 32\<close>
  "lower_char c = (let n = ord c in
     if (65 \<le> n \<and> n \<le> 90) \<or> (192 \<le> n \<and> n \<le> 222 \<and> n \<noteq> 215)
     then char_of (n + 32) else c)"

definition lower :: "string \<Rightarrow> string" where
  "lower s = map lower_char s"

text \<open>Python's \<open>p in s\<close> on strings: some position of \<open>s\<close> starts with \<open>p\<close>.\<close>

fun str_in :: "string \<Rightarrow> string \<Rightarrow> bool" where
  "str_in p [] = (p = [])"
| "str_in p (c # cs) = (prefix p (c # cs) \<or> str_in p cs)"

text \<open>
  Python's \<open>str(n)\<close> on a natural number, as an f-string formats a loop index:
  decimal digits, no leading zero.
\<close>

definition digit_char :: "nat \<Rightarrow> char" where
  "digit_char d = char_of (48 + d)"

function decimal :: "nat \<Rightarrow> string" where
  "decimal n = (if n < 10 then [digit_char n] else decimal (n div 10) @ [digit_char (n mod 10)])"
  by pat_completeness auto
termination
  by (relation "measure id") auto

declare decimal.simps [simp del]

text \<open>
  \<open>s.split(sep)\<close> for a separator of one character: the pieces between the
  separators, never an empty list.
\<close>

fun split :: "char \<Rightarrow> string \<Rightarrow> string list" where
  "split sep [] = [[]]"
| "split sep (c # cs) =
     (if c = sep then [] # split sep cs
      else (case split sep cs of [] \<Rightarrow> [[c]] | p # ps \<Rightarrow> (c # p) # ps))"

section \<open>The regular expressions of the program\<close>

text \<open>
  The patterns of \<open>midjourney.py\<close> use literals, character classes, \<open>?\<close>, \<open>|\<close>,
  sequencing and \<open>+\<close> applied to a character class. Capturing groups do not change what
  matches and are left out.
\<close>

datatype cclass =
    Digit                 \<comment> \<open>\<open>\d\<close>\<close>
  | NotSpace              \<comment> \<open>\<open>[^\s]\<close>\<close>
  | AnyChar               \<comment> \<open>\<open>.\<close>: every character but the line feed\<close>
  | Range char char       \<comment> \<open>\<open>[a-b]\<close>\<close>

fun in_class :: "cclass \<Rightarrow> char \<Rightarrow> bool" where
  "in_class Digit c = is_digit c"
| "in_class NotSpace c = (\<not> is_space c)"
| "in_class AnyChar c = (ord c \<noteq> 10)"
| "in_class (Range a b) c = (ord a \<le> ord c \<and> ord c \<le> ord b)"

datatype regex =
    Lit string            \<comment> \<open>a run of literal characters\<close>
  | Cls cclass            \<comment> \<open>one character of a class\<close>
  | Opt regex             \<comment> \<open>\<open>r?\<close>, greedy\<close>
  | Plus cclass           \<comment> \<open>\<open>k+\<close> for a class \<open>k\<close>, greedy\<close>
  | Alt regex regex       \<comment> \<open>\<open>r|s\<close>\<close>
  | Seq regex regex       \<comment> \<open>\<open>rs\<close>\<close>

text \<open>
  \<open>rmatch r s\<close> lists what is left of \<open>s\<close> after each way of matching \<open>r\<close> at the
  start of \<open>s\<close>, in the order in which the backtracking matcher of \<open>re\<close> tries them:
  a greedy \<open>?\<close> takes its operand before it skips it, \<open>|\<close> tries the left branch first,
  a greedy \<open>+\<close> takes the longest run first.
\<close>

fun rmatch :: "regex \<Rightarrow> string \<Rightarrow> string list" where
  "rmatch (Lit l) s = (if prefix l s then [drop (length l) s] else [])"
| "rmatch (Cls k) s = (case s of [] \<Rightarrow> [] | c # cs \<Rightarrow> if in_class k c then [cs] else [])"
| "rmatch (Opt r) s = rmatch r s @ [s]"
| "rmatch (Plus k) s =
     map (\<lambda>n. drop n s) (rev [1 ..< Suc (length (takeWhile (in_class k) s))])"
| "rmatch (Alt a b) s = rmatch a s @ rmatch b s"
| "rmatch (Seq a b) s = concat (map (rmatch b) (rmatch a s))"

definition re_match :: "regex \<Rightarrow> string \<Rightarrow> string option" where
  \<comment> \<open>\<open>re.match\<close>: the first successful way, as the rest of the text\<close>
  "re_match r s = (case rmatch r s of [] \<Rightarrow> None | t # _ \<Rightarrow> Some t)"

fun re_search :: "regex \<Rightarrow> string \<Rightarrow> bool" where
  \<comment> \<open>the truth value of \<open>re.search\<close>: a match at some position\<close>
  "re_search r [] = (rmatch r [] \<noteq> [])"
| "re_search r (c # cs) = (rmatch r (c # cs) \<noteq> [] \<or> re_search r cs)"

text \<open>
  \<open>re.sub\<close> scans from the left: where the pattern matches, the matched text is
  replaced and the scan goes on behind it; elsewhere the character is copied. The
  pattern this program substitutes never matches the empty string; for a pattern
  that does, the last branch copies the character and moves on.
\<close>

function re_sub :: "regex \<Rightarrow> string \<Rightarrow> string \<Rightarrow> string" where
  "re_sub r repl [] = []"
| "re_sub r repl (c # cs) =
     (case re_match r (c # cs) of
        None \<Rightarrow> c # re_sub r repl cs
      | Some t \<Rightarrow>
          if length t < length (c # cs) then repl @ re_sub r repl t
          else c # re_sub r repl cs)"
  by pat_completeness auto
termination
  by (relation "measure (\<lambda>(r, repl, s). length s)") auto

section \<open>Prompt matching\<close>

definition url_pattern :: regex where
  \<comment> \<open>\<open>(<?https?:\/\/[^\s]+>?)\<close>\<close>
  "url_pattern =
     Seq (Opt (Lit ''<''))
       (Seq (Lit ''http'')
         (Seq (Opt (Lit ''s''))
           (Seq (Lit ''://'')
             (Seq (Plus NotSpace) (Opt (Lit ''>''))))))"

definition match_mid_journey_prompt_ignoring_urls :: "string \<Rightarrow> string \<Rightarrow> bool" where
  "match_mid_journey_prompt_ignoring_urls prompt message_content =
     (let prompt' = re_sub url_pattern ''<URL>'' (lower prompt);
          message_content' = re_sub url_pattern ''<URL>'' (lower message_content)
      in str_in prompt' message_content')"

subsection \<open>The matcher as the specification words it\<close>

text \<open>
  The specification describes the normal form without a regular expression: a URL is
  an \<open>http://\<close> or \<open>https://\<close> run without whitespace, with an optional opening
  angle bracket; every such run is replaced by the placeholder. \<open>spec_url_here s\<close>
  says that a URL starts at the head of \<open>s\<close>; the run then extends up to the next
  whitespace character.
\<close>

definition body_ok :: "string \<Rightarrow> bool" where
  "body_ok s = (case s of [] \<Rightarrow> False | b # _ \<Rightarrow> \<not> is_space b)"

definition spec_url_here :: "string \<Rightarrow> bool" where
  "spec_url_here s =
     list_ex (\<lambda>p. prefix p s \<and> body_ok (drop (length p) s))
       [''<https://'', ''<http://'', ''https://'', ''http://'']"

function spec_replace_urls :: "string \<Rightarrow> string" where
  "spec_replace_urls [] = []"
| "spec_replace_urls (c # cs) =
     (if spec_url_here (c # cs)
      then ''<URL>'' @ spec_replace_urls (dropWhile (\<lambda>x. \<not> is_space x) cs)
      else c # spec_replace_urls cs)"
  by pat_completeness auto
termination
  by (relation "measure length") (auto simp: length_dropWhile_le less_Suc_eq_le)

definition spec_normalize :: "string \<Rightarrow> string" where
  "spec_normalize s = spec_replace_urls (lower s)"

definition is_substring :: "string \<Rightarrow> string \<Rightarrow> bool" where
  "is_substring p s = (\<exists>pre suf. s = pre @ p @ suf)"

text \<open>Two names used in the proofs: the head of a list, if any, and the tail of the
  URL pattern.\<close>

definition first :: "'a list \<Rightarrow> 'a option" where
  "first xs = (case xs of [] \<Rightarrow> None | x # _ \<Rightarrow> Some x)"

definition url_tail :: regex where
  "url_tail = Seq (Plus NotSpace) (Opt (Lit ''>''))"

section \<open>Message classification\<close>

datatype MidJourneyImageType = MIDJOURNEY_UPSCALE | MIDJOURNEY_GRID

record DiscordMessage =
  id' :: string
  content :: string
  images :: "string list"

definition progress_regexp :: regex where
  \<comment> \<open>\<open>\((100|[1-9]?\d)%\)\<close>\<close>
  "progress_regexp =
     Seq (Lit ''('')
       (Seq (Alt (Lit ''100'') (Seq (Opt (Cls (Range CHR ''1'' CHR ''9''))) (Cls Digit)))
         (Lit ''%)''))"

definition image_number_regexp :: regex where
  \<comment> \<open>\<open>\*\* - Image #(\d+) <@\<close>\<close>
  "image_number_regexp = Seq (Lit ''** - Image #'') (Seq (Plus Digit) (Lit '' <@''))"

definition variations_regexp :: regex where
  \<comment> \<open>\<open> - Variations by @.+ \(\<close>\<close>
  "variations_regexp = Seq (Lit '' - Variations by @'') (Seq (Plus AnyChar) (Lit '' (''))"

definition grid_regexp :: regex where
  \<comment> \<open>\<open> - @.+ \(\<close>, written in place in the source\<close>
  "grid_regexp = Seq (Lit '' - @'') (Seq (Plus AnyChar) (Lit '' (''))"

definition classify_midjourney_message :: "DiscordMessage \<Rightarrow> MidJourneyImageType option" where
  "classify_midjourney_message message =
     (if re_search progress_regexp (content message) then None
      else if length (images message) > 0 \<and> re_search image_number_regexp (content message)
        then Some MIDJOURNEY_UPSCALE
      else if length (images message) > 0 \<and> re_search grid_regexp (content message)
        then Some MIDJOURNEY_GRID
      else if length (images message) > 0 \<and> re_search variations_regexp (content message)
        then Some MIDJOURNEY_GRID
      else None)"

subsection \<open>The markers as the specification words them\<close>

text \<open>
  The progress marker is \<open>(N%)\<close> for an integer \<open>N\<close> from 0 to 100, the integer
  written as \<open>decimal\<close> writes it: without a sign and without leading zeros.
\<close>

definition progress_marker :: "nat \<Rightarrow> string" where
  "progress_marker n = ''('' @ decimal n @ ''%)''"



text \<open>The numerals the progress pattern accepts between the parenthesis and the
  percent sign.\<close>

definition progress_number :: "string \<Rightarrow> bool" where
  "progress_number N =
     (N = ''100'' \<or> (\<exists>d. N = [d] \<and> is_digit d) \<or>
      (\<exists>a d. N = [a, d] \<and> in_class (Range CHR ''1'' CHR ''9'') a \<and> is_digit d))"

section \<open>Splitting an image\<close>

text \<open>
  An image is its size and its pixels, addressed by column and row from the top-left
  corner. \<open>crop\<close> is \<open>Image.crop\<close> on a box \<open>(left, upper, right, bottom)\<close>; the four
  boxes of \<open>_split_in_four\<close> have \<open>left \<le> right\<close> and \<open>upper \<le> bottom\<close>. The source
  computes each half as \<open>math.floor(width / 2)\<close>, which is the integer quotient for
  every size an image can have (the division is exact in floating point below \<open>2^53\<close>).
\<close>

record Image =
  width :: nat
  height :: nat
  pixel_at :: "nat \<Rightarrow> nat \<Rightarrow> nat"

definition image_size :: "Image \<Rightarrow> nat \<times> nat" where
  "image_size img = (width img, height img)"

definition crop :: "Image \<Rightarrow> nat \<times> nat \<times> nat \<times> nat \<Rightarrow> Image" where
  "crop img box =
     (case box of (left, upper, right, bottom) \<Rightarrow>
        \<lparr>width = right - left, height = bottom - upper,
         pixel_at = (\<lambda>x y. pixel_at img (left + x) (upper + y))\<rparr>)"

definition split_in_four :: "Image \<Rightarrow> Image list" where
  "split_in_four img =
     (case image_size img of (w, h) \<Rightarrow>
        [crop img (0, 0, w div 2, h div 2),
         crop img (w div 2, 0, w, h div 2),
         crop img (0, h div 2, w div 2, h),
         crop img (w div 2, h div 2, w, h)])"

definition pixel_count :: "Image \<Rightarrow> nat" where
  "pixel_count img = width img * height img"

section \<open>Reading the chat page\<close>

datatype py_error =
    ValueError string
  | IndexError
  | AttributeError
  | StaleElementReferenceException
  | NoSuchElementException
  | RequestException
  | UnidentifiedImageError

text \<open>
  A message item of the page is what the three reads of the extractor return on it:
  \<open>get_attribute("id")\<close> gives a string or \<open>None\<close>; \<open>find_element\<close> for the content
  node, followed by \<open>.text\<close>, gives the text; \<open>find_elements\<close> for the links to the
  original image gives the links, each with what \<open>get_attribute("href")\<close> returns on it.
  Every read can raise.
\<close>

record WebElement =
  get_attribute_id :: "py_error + string option"
  content_div_text :: "py_error + string"
  original_links :: "py_error + (py_error + string option) list"

definition get_image_url :: "WebElement \<Rightarrow> py_error + string" where
  "get_image_url message =
     (case original_links message of
        Inl e \<Rightarrow> Inl e
      | Inr image_element \<Rightarrow>
          (case image_element of
             [] \<Rightarrow> Inr []
           | link # _ \<Rightarrow>
               (case link of
                  Inl e \<Rightarrow> Inl e
                | Inr href \<Rightarrow> Inr (case href of None \<Rightarrow> [] | Some image_url \<Rightarrow> image_url))))"

text \<open>
  The loop of \<open>extract_messages\<close>. Only the read of the id stands in the \<open>try\<close>; the
  three exceptions named there skip the item.
\<close>

fun extract_loop :: "WebElement list \<Rightarrow> DiscordMessage list \<Rightarrow> py_error + DiscordMessage list" where
  "extract_loop [] extracted_messages = Inr extracted_messages"
| "extract_loop (message # messages) extracted_messages =
     (case get_attribute_id message of
        Inl e \<Rightarrow>
          if e = AttributeError \<or> e = StaleElementReferenceException \<or> e = NoSuchElementException
          then extract_loop messages extracted_messages
          else Inl e
      | Inr None \<Rightarrow> extract_loop messages extracted_messages
      | Inr (Some message_id) \<Rightarrow>
          (case content_div_text message of
             Inl e \<Rightarrow> Inl e
           | Inr text_content \<Rightarrow>
               (case get_image_url message of
                  Inl e \<Rightarrow> Inl e
                | Inr image_url \<Rightarrow>
                    if image_url = [] then extract_loop messages extracted_messages
                    else extract_loop messages
                           (extracted_messages @
                            [\<lparr>id' = message_id, content = text_content, images = [image_url]\<rparr>]))))"

text \<open>The driver is absent, or shows the message items of the page.\<close>

definition extract_messages :: "WebElement list option \<Rightarrow> py_error + DiscordMessage list" where
  "extract_messages driver =
     (case driver of
        None \<Rightarrow> Inl (ValueError ''WebDriver not initialized'')
      | Some messages \<Rightarrow> extract_loop messages [])"

text \<open>An item the extractor keeps: its id is present and its image URL is not empty.\<close>

definition has_id_and_image :: "WebElement \<Rightarrow> bool" where
  "has_id_and_image message =
     ((case get_attribute_id message of Inr (Some _) \<Rightarrow> True | _ \<Rightarrow> False) \<and>
      (case get_image_url message of Inr image_url \<Rightarrow> image_url \<noteq> [] | Inl _ \<Rightarrow> False))"

text \<open>A message built from an item of the page: the item's id, its text and its
  non-empty image URL.\<close>

definition from_item :: "WebElement list \<Rightarrow> DiscordMessage \<Rightarrow> bool" where
  "from_item elems m =
     (\<exists>e u. e \<in> set elems \<and> u \<noteq> [] \<and> images m = [u] \<and>
        get_attribute_id e = Inr (Some (id' m)) \<and> content_div_text e = Inr (content m) \<and>
        get_image_url e = Inr u)"

section \<open>Waiting for the image\<close>

text \<open>
  What one call of \<open>_wait_for_image\<close> meets outside the program: the driver with the
  page it shows at each poll, the answer of \<open>requests.get\<close> to a URL, and what
  \<open>Image.open\<close> makes of the bytes of a response. The files written are a map from
  paths to images; a write is taken to succeed.
\<close>

record Response =
  status_code :: nat
  response_content :: "nat list"

record World =
  driver :: "(nat \<Rightarrow> WebElement list) option"
  requests_get :: "string \<Rightarrow> py_error + Response"
  image_open :: "nat list \<Rightarrow> py_error + Image"

type_synonym files = "string \<rightharpoonup> Image"

definition file_name_of :: "string \<Rightarrow> string" where
  \<comment> \<open>\<open>download_url.split("/")[-1].split("?")[0]\<close>; \<open>split\<close> never returns an empty list\<close>
  "file_name_of download_url = hd (split CHR ''?'' (last (split CHR ''/'' download_url)))"

definition full_path_of :: "string \<Rightarrow> nat \<Rightarrow> string" where
  "full_path_of file_name i = ''./images/'' @ (file_name @ ''-'' @ decimal i @ ''.png'')"

fun save_all :: "string \<Rightarrow> nat \<Rightarrow> Image list \<Rightarrow> files \<Rightarrow> string list \<Rightarrow> string list \<times> files" where
  "save_all file_name i [] fs image_paths = (image_paths, fs)"
| "save_all file_name i (img # imgs) fs image_paths =
     save_all file_name (Suc i) imgs (fs(full_path_of file_name i \<mapsto> img))
       (image_paths @ [full_path_of file_name i])"

definition download_and_split ::
  "World \<Rightarrow> DiscordMessage \<Rightarrow> files \<Rightarrow> (py_error + string list) \<times> files" where
  "download_and_split world message fs =
     (case images message of
        [] \<Rightarrow> (Inl IndexError, fs)
      | download_url # _ \<Rightarrow>
          (case requests_get world download_url of
             Inl e \<Rightarrow> (Inl e, fs)
           | Inr response \<Rightarrow>
               (case image_open world (response_content response) of
                  Inl e \<Rightarrow> (Inl e, fs)
                | Inr img \<Rightarrow>
                    (case save_all (file_name_of download_url) 0 (split_in_four img) fs [] of
                       (image_paths, fs') \<Rightarrow> (Inr image_paths, fs')))))"

text \<open>
  The \<open>for\<close> loop over the messages of one poll: \<open>Some\<close> when the function returns or
  raises inside it, \<open>None\<close> when the loop runs to its end.
\<close>

fun scan_messages ::
  "World \<Rightarrow> string list \<Rightarrow> string \<Rightarrow> DiscordMessage list \<Rightarrow> files \<Rightarrow>
     ((py_error + string list) \<times> files) option" where
  "scan_messages world old_message_ids prompt [] fs = None"
| "scan_messages world old_message_ids prompt (message # messages) fs =
     (if match_mid_journey_prompt_ignoring_urls prompt (content message)
         \<and> id' message \<notin> set old_message_ids
         \<and> images message \<noteq> []
      then
        (case classify_midjourney_message message of
           None \<Rightarrow> scan_messages world old_message_ids prompt messages fs
         | Some classification \<Rightarrow>
             (let is_midjourney_grid = (classification = MIDJOURNEY_GRID) in
              if length (images message) = 1 \<and> is_midjourney_grid
                 \<and> match_mid_journey_prompt_ignoring_urls prompt (content message)
              then Some (download_and_split world message fs)
              else scan_messages world old_message_ids prompt messages fs))
      else scan_messages world old_message_ids prompt messages fs)"

text \<open>
  The \<open>while True\<close> loop, with the number of polls it may still make: \<open>None\<close> says that
  the call has not returned within them. \<open>k\<close> counts the polls made so far.
\<close>

definition page_at :: "World \<Rightarrow> nat \<Rightarrow> WebElement list option" where
  "page_at world k = map_option (\<lambda>page. page k) (driver world)"

fun wait_for_image ::
  "nat \<Rightarrow> World \<Rightarrow> nat \<Rightarrow> string list \<Rightarrow> string \<Rightarrow> files \<Rightarrow>
     ((py_error + string list) \<times> files) option" where
  "wait_for_image 0 world k old_message_ids prompt fs = None"
| "wait_for_image (Suc polls) world k old_message_ids prompt fs =
     (case extract_messages (page_at world k) of
        Inl e \<Rightarrow> Some (Inl e, fs)
      | Inr messages \<Rightarrow>
          (case scan_messages world old_message_ids prompt messages fs of
             Some r \<Rightarrow> Some r
           | None \<Rightarrow> wait_for_image polls world (Suc k) old_message_ids prompt fs))"

text \<open>The message the loop of one poll stops at.\<close>

definition accepted :: "string list \<Rightarrow> string \<Rightarrow> DiscordMessage \<Rightarrow> bool" where
  "accepted old_message_ids prompt message =
     (match_mid_journey_prompt_ignoring_urls prompt (content message)
      \<and> id' message \<notin> set old_message_ids
      \<and> classify_midjourney_message message = Some MIDJOURNEY_GRID
      \<and> length (images message) = 1)"

section \<open>Example pages\<close>

text \<open>
  Message items used to run the definitions: one whose id cannot be read, one without
  an id, one without a link to an image, one whose content node is missing, a progress
  message and a finished grid.
\<close>

definition item_stale_id :: WebElement where
  "item_stale_id =
     \<lparr>get_attribute_id = Inl StaleElementReferenceException,
      content_div_text = Inr ''**a cat** - @alice (fast)'',
      original_links = Inr [Inr (Some ''https://cdn.example/att/1/old.png'')]\<rparr>"

definition item_no_id :: WebElement where
  "item_no_id =
     \<lparr>get_attribute_id = Inr None,
      content_div_text = Inr ''**a cat** - @alice (fast)'',
      original_links = Inr [Inr (Some ''https://cdn.example/att/1/old.png'')]\<rparr>"

definition item_no_image :: WebElement where
  "item_no_image =
     \<lparr>get_attribute_id = Inr (Some ''chat-messages-1''),
      content_div_text = Inr ''**a cat** - @alice (Waiting to start)'',
      original_links = Inr []\<rparr>"

definition item_no_content :: WebElement where
  "item_no_content =
     \<lparr>get_attribute_id = Inr (Some ''chat-messages-2''),
      content_div_text = Inl NoSuchElementException,
      original_links = Inr [Inr (Some ''https://cdn.example/att/2/photo.png'')]\<rparr>"


definition item_grid :: WebElement where
  "item_grid =
     \<lparr>get_attribute_id = Inr (Some ''chat-messages-3''),
      content_div_text = Inr ''**a cat** - @alice (fast)'',
      original_links = Inr [Inr (Some ''https://cdn.example/att/3/grid.png?ex=65'')]\<rparr>"


definition message_grid :: DiscordMessage where
  "message_grid =
     \<lparr>id' = ''chat-messages-3'', content = ''**a cat** - @alice (fast)'',
      images = [''https://cdn.example/att/3/grid.png?ex=65'']\<rparr>"

definition grid_image :: Image where
  "grid_image = \<lparr>width = 4, height = 2, pixel_at = (\<lambda>x y. x + 4 * y)\<rparr>"


definition world_404 :: World where
  "world_404 =
     \<lparr>driver = Some (\<lambda>k. [item_grid]),
      requests_get = (\<lambda>url. Inr \<lparr>status_code = 404, response_content = [137, 80, 78, 71]\<rparr>),
      image_open = (\<lambda>bytes. if bytes = [137, 80, 78, 71] then Inr grid_image
                              else Inl UnidentifiedImageError)\<rparr>"

definition world_404_html :: World where
  "world_404_html =
     \<lparr>driver = Some (\<lambda>k. [item_grid]),
      requests_get = (\<lambda>url. Inr \<lparr>status_code = 404, response_content = [60, 104, 49, 62]\<rparr>),
      image_open = (\<lambda>bytes. if bytes = [137, 80, 78, 71] then Inr grid_image
                              else Inl UnidentifiedImageError)\<rparr>"


definition world_no_content :: World where
  "world_no_content =
     \<lparr>driver = Some (\<lambda>k. [item_no_content, item_grid]),
      requests_get = (\<lambda>url. Inr \<lparr>status_code = 200, response_content = [137, 80, 78, 71]\<rparr>),
      image_open = (\<lambda>bytes. if bytes = [137, 80, 78, 71] then Inr grid_image
                              else Inl UnidentifiedImageError)\<rparr>"

section \<open>URLs inside a text\<close>





section \<open>Facts about strings and the matcher\<close>

lemma str_in_iff: "str_in p s = is_substring p s"
proof (induction s)
  case Nil
  then show ?case by (auto simp: is_substring_def)
next
  case (Cons c cs)
  have "is_substring p (c # cs) = (prefix p (c # cs) \<or> is_substring p cs)"
  proof
    assume "is_substring p (c # cs)"
    then obtain pre suf where e: "c # cs = pre @ p @ suf"
      by (auto simp: is_substring_def)
    show "prefix p (c # cs) \<or> is_substring p cs"
    proof (cases pre)
      case Nil
      with e show ?thesis by (auto simp: prefix_def)
    next
      case (Cons a pre')
      with e have "cs = pre' @ p @ suf" by simp
      then show ?thesis by (auto simp: is_substring_def)
    qed
  next
    assume "prefix p (c # cs) \<or> is_substring p cs"
    then show "is_substring p (c # cs)"
    proof
      assume "prefix p (c # cs)"
      then obtain suf where "c # cs = [] @ p @ suf" by (auto simp: prefix_def)
      then show ?thesis unfolding is_substring_def by blast
    next
      assume "is_substring p cs"
      then obtain pre suf where "cs = pre @ p @ suf" by (auto simp: is_substring_def)
      then have "c # cs = (c # pre) @ p @ suf" by simp
      then show ?thesis unfolding is_substring_def by blast
    qed
  qed
  with Cons show ?case by simp
qed

lemma first_simps [simp]: "first [] = None" "first (x # xs) = Some x"
  by (simp_all add: first_def)

lemma first_append: "first (xs @ ys) = (case first xs of None \<Rightarrow> first ys | Some x \<Rightarrow> Some x)"
  by (cases xs) simp_all

lemma re_match_first: "re_match r s = first (rmatch r s)"
  by (simp add: re_match_def first_def)

lemma in_class_NotSpace: "in_class NotSpace = (\<lambda>x. \<not> is_space x)"
  by (rule ext) simp

lemma rmatch_Plus_Cons:
  assumes "in_class k c"
  shows "rmatch (Plus k) (c # cs) =
           dropWhile (in_class k) cs #
           map (\<lambda>n. drop n (c # cs)) (rev [1 ..< Suc (length (takeWhile (in_class k) cs))])"
proof -
  let ?n = "length (takeWhile (in_class k) cs)"
  have "rmatch (Plus k) (c # cs) = map (\<lambda>n. drop n (c # cs)) (rev [1 ..< Suc (Suc ?n)])"
    using assms by simp
  also have "rev [1 ..< Suc (Suc ?n)] = Suc ?n # rev [1 ..< Suc ?n]"
    by simp
  finally show ?thesis
    by (simp add: dropWhile_eq_drop)
qed

lemma rmatch_Plus_no: "s = [] \<or> \<not> in_class k (hd s) \<Longrightarrow> rmatch (Plus k) s = []"
  by (cases s) auto

lemma not_space_gt: "\<not> is_space (CHR ''>'')"
  by (simp add: is_space_def ord_def)

lemma dropWhile_ns_no_gt: "\<not> prefix ''>'' (dropWhile (\<lambda>x. \<not> is_space x) cs)"
proof
  assume "prefix ''>'' (dropWhile (\<lambda>x. \<not> is_space x) cs)"
  then obtain t where t: "dropWhile (\<lambda>x. \<not> is_space x) cs = CHR ''>'' # t"
    by (auto simp: prefix_def)
  then have "is_space (CHR ''>'')"
    using hd_dropWhile [of "\<lambda>x. \<not> is_space x" cs] by simp
  then show False by (simp add: not_space_gt)
qed

text \<open>
  The greedy run takes every character up to the next whitespace, the closing bracket
  included, so the optional \<open>>\<close> behind it never finds one.
\<close>

lemma first_url_tail:
  "first (rmatch url_tail s) =
     (if body_ok s then Some (dropWhile (\<lambda>x. \<not> is_space x) s) else None)"
proof (cases s)
  case Nil
  then show ?thesis by (simp add: url_tail_def body_ok_def)
next
  case (Cons b bs)
  show ?thesis
  proof (cases "is_space b")
    case True
    then have "rmatch (Plus NotSpace) s = []" using Cons by (intro rmatch_Plus_no) simp
    then show ?thesis using Cons True by (simp add: url_tail_def body_ok_def)
  next
    case False
    then have "in_class NotSpace b" by simp
    from rmatch_Plus_Cons [OF this, of bs] obtain rest where
      r: "rmatch (Plus NotSpace) (b # bs) = dropWhile (\<lambda>x. \<not> is_space x) bs # rest"
      by (simp add: in_class_NotSpace)
    have "rmatch url_tail s =
            concat (map (rmatch (Opt (Lit ''>''))) (rmatch (Plus NotSpace) (b # bs)))"
      using Cons by (simp only: url_tail_def rmatch.simps(6))
    also have "\<dots> = rmatch (Opt (Lit ''>'')) (dropWhile (\<lambda>x. \<not> is_space x) bs) @
                      concat (map (rmatch (Opt (Lit ''>''))) rest)"
      by (simp only: r list.map concat.simps)
    also have "rmatch (Opt (Lit ''>'')) (dropWhile (\<lambda>x. \<not> is_space x) bs) =
                 [dropWhile (\<lambda>x. \<not> is_space x) bs]"
      using dropWhile_ns_no_gt [of bs] by simp
    finally show ?thesis using Cons False by (simp add: body_ok_def)
  qed
qed

lemma dropWhile_drop_prefix:
  assumes "prefix l s" "list_all P l"
  shows "dropWhile P (drop (length l) s) = dropWhile P s"
proof -
  from assms(1) obtain t where "s = l @ t" by (auto simp: prefix_def)
  then show ?thesis using assms(2)
    by (simp add: dropWhile_append list_all_iff)
qed

lemma first_Seq_Lit:
  assumes "\<And>s. first (rmatch r s) = (if Q s then Some (dropWhile P s) else None)"
    and "list_all P l"
  shows "first (rmatch (Seq (Lit l) r) s) =
           (if \<exists>t. s = l @ t \<and> Q t then Some (dropWhile P s) else None)"
proof -
  have "(\<exists>t. s = l @ t \<and> Q t) = (prefix l s \<and> Q (drop (length l) s))"
    by (auto simp: prefix_def)
  then show ?thesis using assms by (simp add: dropWhile_drop_prefix)
qed

lemma first_Seq_Opt_Lit:
  assumes "\<And>s. first (rmatch r s) = (if Q s then Some (dropWhile P s) else None)"
    and "list_all P l"
  shows "first (rmatch (Seq (Opt (Lit l)) r) s) =
           (if (\<exists>t. s = l @ t \<and> Q t) \<or> Q s then Some (dropWhile P s) else None)"
proof -
  have "(\<exists>t. s = l @ t \<and> Q t) = (prefix l s \<and> Q (drop (length l) s))"
    by (auto simp: prefix_def)
  then show ?thesis using assms by (simp add: dropWhile_drop_prefix first_append)
qed

lemma prefix_drop_ex: "(prefix l s \<and> Q (drop (length l) s)) = (\<exists>t. s = l @ t \<and> Q t)"
  by (auto simp: prefix_def)

text \<open>What the backtracking matcher finds first at a position: the whole run.\<close>

lemma first_url_pattern:
  "first (rmatch url_pattern s) =
     (if spec_url_here s then Some (dropWhile (\<lambda>x. \<not> is_space x) s) else None)"
proof -
  let ?P = "\<lambda>x. \<not> is_space x"
  have l1: "list_all ?P ''://''" "list_all ?P ''s''" "list_all ?P ''http''" "list_all ?P ''<''"
    by (simp_all add: is_space_def ord_def)
  note s4 = first_Seq_Lit [where r = url_tail and P = ?P, OF first_url_tail l1(1)]
  note s3 = first_Seq_Opt_Lit [where P = ?P, OF s4 l1(2)]
  note s2 = first_Seq_Lit [where P = ?P, OF s3 l1(3)]
  note s1 = first_Seq_Opt_Lit [where P = ?P, OF s2 l1(4)]
  have "spec_url_here s =
    ((\<exists>t. s = ''<'' @ t \<and> (\<exists>t'. t = ''http'' @ t' \<and>
         ((\<exists>u. t' = ''s'' @ u \<and> (\<exists>v. u = ''://'' @ v \<and> body_ok v)) \<or>
          (\<exists>v. t' = ''://'' @ v \<and> body_ok v)))) \<or>
     (\<exists>t'. s = ''http'' @ t' \<and>
         ((\<exists>u. t' = ''s'' @ u \<and> (\<exists>v. u = ''://'' @ v \<and> body_ok v)) \<or>
          (\<exists>v. t' = ''://'' @ v \<and> body_ok v))))"
    unfolding spec_url_here_def list_ex_Cons_iff list_ex_Nil_iff prefix_drop_ex
    by (simp; blast)
  then show ?thesis
    unfolding url_pattern_def url_tail_def [symmetric] s1 by simp
qed

lemma spec_url_here_not_space: "spec_url_here (c # cs) \<Longrightarrow> \<not> is_space c"
  by (auto simp: spec_url_here_def is_space_def ord_def prefix_def)

lemma re_sub_url_pattern: "re_sub url_pattern ''<URL>'' s = spec_replace_urls s"
proof (induction s rule: spec_replace_urls.induct)
  case 1
  show ?case by simp
next
  case (2 c cs)
  show ?case
  proof (cases "spec_url_here (c # cs)")
    case True
    then have d: "dropWhile (\<lambda>x. \<not> is_space x) (c # cs) = dropWhile (\<lambda>x. \<not> is_space x) cs"
      using spec_url_here_not_space by simp
    have m: "re_match url_pattern (c # cs) = Some (dropWhile (\<lambda>x. \<not> is_space x) cs)"
      using True d by (simp only: re_match_first first_url_pattern if_True)
    have "length (dropWhile (\<lambda>x. \<not> is_space x) cs) < length (c # cs)"
      by (simp add: length_dropWhile_le less_Suc_eq_le)
    then show ?thesis using True 2 m
      by (simp del: dropWhile.simps)
  next
    case False
    then have "re_match url_pattern (c # cs) = None"
      by (simp only: re_match_first first_url_pattern if_False)
    then show ?thesis using False 2 by simp
  qed
qed

lemma matches_normal_form:
  "match_mid_journey_prompt_ignoring_urls p c =
     is_substring (spec_normalize p) (spec_normalize c)"
  by (simp add: match_mid_journey_prompt_ignoring_urls_def Let_def re_sub_url_pattern
      spec_normalize_def str_in_iff)

section \<open>Facts about searching and the classifier's patterns\<close>

lemma re_search_iff: "re_search r s = (\<exists>pre x. s = pre @ x \<and> rmatch r x \<noteq> [])"
proof (induction s)
  case Nil
  then show ?case by simp
next
  case (Cons c cs)
  have "(\<exists>pre x. c # cs = pre @ x \<and> rmatch r x \<noteq> []) =
        (rmatch r (c # cs) \<noteq> [] \<or> (\<exists>pre x. cs = pre @ x \<and> rmatch r x \<noteq> []))"
  proof
    assume "\<exists>pre x. c # cs = pre @ x \<and> rmatch r x \<noteq> []"
    then obtain pre x where e: "c # cs = pre @ x" "rmatch r x \<noteq> []" by blast
    show "rmatch r (c # cs) \<noteq> [] \<or> (\<exists>pre x. cs = pre @ x \<and> rmatch r x \<noteq> [])"
    proof (cases pre)
      case Nil
      with e show ?thesis by simp
    next
      case (Cons a pre')
      with e have "cs = pre' @ x" by simp
      with e(2) show ?thesis by blast
    qed
  next
    assume "rmatch r (c # cs) \<noteq> [] \<or> (\<exists>pre x. cs = pre @ x \<and> rmatch r x \<noteq> [])"
    then show "\<exists>pre x. c # cs = pre @ x \<and> rmatch r x \<noteq> []"
    proof
      assume "rmatch r (c # cs) \<noteq> []"
      then have "c # cs = [] @ (c # cs) \<and> rmatch r (c # cs) \<noteq> []" by simp
      then show ?thesis by blast
    next
      assume "\<exists>pre x. cs = pre @ x \<and> rmatch r x \<noteq> []"
      then obtain pre x where "cs = pre @ x" "rmatch r x \<noteq> []" by blast
      then have "c # cs = (c # pre) @ x \<and> rmatch r x \<noteq> []" by simp
      then show ?thesis by blast
    qed
  qed
  with Cons show ?case by simp
qed

lemma in_rmatch_Lit: "t \<in> set (rmatch (Lit l) s) \<longleftrightarrow> s = l @ t"
  by (auto simp: prefix_def)

lemma in_rmatch_Cls: "t \<in> set (rmatch (Cls k) s) \<longleftrightarrow> (\<exists>c. s = c # t \<and> in_class k c)"
  by (cases s) auto

lemma in_rmatch_Opt: "t \<in> set (rmatch (Opt r) s) \<longleftrightarrow> t \<in> set (rmatch r s) \<or> t = s"
  by auto

lemma in_rmatch_Alt: "t \<in> set (rmatch (Alt a b) s) \<longleftrightarrow> t \<in> set (rmatch a s) \<or> t \<in> set (rmatch b s)"
  by auto

lemma in_rmatch_Seq: "t \<in> set (rmatch (Seq a b) s) \<longleftrightarrow> (\<exists>m. m \<in> set (rmatch a s) \<and> t \<in> set (rmatch b m))"
  by auto


lemma digit_char_ord: "d < 10 \<Longrightarrow> ord (digit_char d) = 48 + d"
  by (simp add: digit_char_def ord_def)

lemma digit_char_of_digit: "is_digit c \<Longrightarrow> digit_char (ord c - 48) = c"
  by (simp add: digit_char_def ord_def is_digit_def Let_def)

lemma decimal_small: "n < 10 \<Longrightarrow> decimal n = [digit_char n]"
  by (simp add: decimal.simps)

lemma decimal_two: "10 \<le> n \<Longrightarrow> n < 100 \<Longrightarrow> decimal n = [digit_char (n div 10), digit_char (n mod 10)]"
  by (subst decimal.simps) (simp add: decimal_small)

lemma decimal_100: "decimal 100 = ''100''"
  by code_simp

lemma progress_number_decimal: "progress_number N = (\<exists>n. n \<le> 100 \<and> N = decimal n)"
proof
  assume "progress_number N"
  then consider "N = ''100''" | d where "N = [d]" "is_digit d"
    | a d where "N = [a, d]" "in_class (Range CHR ''1'' CHR ''9'') a" "is_digit d"
    unfolding progress_number_def by blast
  then show "\<exists>n. n \<le> 100 \<and> N = decimal n"
  proof cases
    case 1
    then have "(100::nat) \<le> 100 \<and> N = decimal 100" by (simp add: decimal_100)
    then show ?thesis by blast
  next
    case 2
    let ?n = "ord d - 48"
    have "?n < 10" using 2(2) by (auto simp: is_digit_def Let_def)
    then have "?n \<le> 100 \<and> N = decimal ?n"
      using 2 by (simp add: decimal_small digit_char_of_digit)
    then show ?thesis by blast
  next
    case 3
    let ?a = "ord a - 48" and ?d = "ord d - 48"
    have a: "1 \<le> ?a" "?a < 10" "is_digit a" using 3(2) by (auto simp: ord_def is_digit_def)
    have d: "?d < 10" using 3(3) by (auto simp: is_digit_def Let_def)
    let ?n = "10 * ?a + ?d"
    have "10 \<le> ?n" "?n < 100" "?n div 10 = ?a" "?n mod 10 = ?d" using a d by auto
    then have "?n \<le> 100 \<and> N = decimal ?n"
      using 3 a(3) by (simp add: decimal_two digit_char_of_digit)
    then show ?thesis by blast
  qed
next
  assume "\<exists>n. n \<le> 100 \<and> N = decimal n"
  then obtain n where n: "n \<le> 100" "N = decimal n" by blast
  consider "n = 100" | "n < 10" | "10 \<le> n" "n < 100" using n(1) by linarith
  then show "progress_number N"
  proof cases
    case 1
    then show ?thesis using n by (simp add: progress_number_def decimal_100)
  next
    case 2
    then have "is_digit (digit_char n)" by (simp add: is_digit_def digit_char_ord)
    then show ?thesis using n 2 by (simp add: progress_number_def decimal_small)
  next
    case 3
    have "n div 10 < 10" "1 \<le> n div 10" "n mod 10 < 10" using 3 by auto
    then have "is_digit (digit_char (n mod 10))"
      "in_class (Range CHR ''1'' CHR ''9'') (digit_char (n div 10))"
      by (simp_all add: is_digit_def digit_char_ord) (simp_all add: ord_def)
    then show ?thesis using n 3 by (simp add: progress_number_def decimal_two)
  qed
qed

lemma rmatch_nonempty: "rmatch r s \<noteq> [] \<longleftrightarrow> (\<exists>t. t \<in> set (rmatch r s))"
  by (cases "rmatch r s") auto


lemma rmatch_progress:
  "rmatch progress_regexp x \<noteq> [] \<longleftrightarrow> (\<exists>N t. x = ''('' @ N @ ''%)'' @ t \<and> progress_number N)"
proof -
  let ?r19 = "in_class (Range CHR ''1'' CHR ''9'')"
  have "rmatch progress_regexp x \<noteq> [] \<longleftrightarrow>
      (\<exists>t m1 m2. x = ''('' @ m1 \<and>
         (m1 = ''100'' @ m2 \<or>
          (\<exists>m3. ((\<exists>c. m1 = c # m3 \<and> ?r19 c) \<or> m3 = m1) \<and>
                (\<exists>c. m3 = c # m2 \<and> in_class Digit c))) \<and>
         m2 = ''%)'' @ t)"
    unfolding rmatch_nonempty progress_regexp_def in_rmatch_Seq in_rmatch_Lit in_rmatch_Alt
      in_rmatch_Opt in_rmatch_Cls
    by blast
  also have "\<dots> \<longleftrightarrow> (\<exists>N t. x = ''('' @ N @ ''%)'' @ t \<and> progress_number N)"
  proof
    assume "\<exists>t m1 m2. x = ''('' @ m1 \<and>
         (m1 = ''100'' @ m2 \<or>
          (\<exists>m3. ((\<exists>c. m1 = c # m3 \<and> ?r19 c) \<or> m3 = m1) \<and>
                (\<exists>c. m3 = c # m2 \<and> in_class Digit c))) \<and>
         m2 = ''%)'' @ t"
    then obtain t m1 m2 where x: "x = ''('' @ m1" "m2 = ''%)'' @ t"
      and m: "m1 = ''100'' @ m2 \<or>
          (\<exists>m3. ((\<exists>c. m1 = c # m3 \<and> ?r19 c) \<or> m3 = m1) \<and>
                (\<exists>c. m3 = c # m2 \<and> in_class Digit c))"
      by blast
    from m consider "m1 = ''100'' @ m2"
      | a d where "m1 = [a, d] @ m2" "?r19 a" "is_digit d"
      | d where "m1 = [d] @ m2" "is_digit d"
      by auto
    then have "\<exists>N. m1 = N @ m2 \<and> progress_number N"
      unfolding progress_number_def by cases blast+
    then show "\<exists>N t. x = ''('' @ N @ ''%)'' @ t \<and> progress_number N"
      using x by blast
  next
    assume "\<exists>N t. x = ''('' @ N @ ''%)'' @ t \<and> progress_number N"
    then obtain N t where x: "x = ''('' @ (N @ ''%)'' @ t)" and N: "progress_number N"
      by auto
    from N consider "N = ''100''"
      | a d where "N = [a, d]" "?r19 a" "is_digit d"
      | d where "N = [d]" "is_digit d"
      unfolding progress_number_def by blast
    then have "N @ ''%)'' @ t = ''100'' @ (''%)'' @ t) \<or>
          (\<exists>m3. ((\<exists>c. N @ ''%)'' @ t = c # m3 \<and> ?r19 c) \<or> m3 = N @ ''%)'' @ t) \<and>
                (\<exists>c. m3 = c # (''%)'' @ t) \<and> in_class Digit c))"
      by cases auto
    then show "\<exists>t m1 m2. x = ''('' @ m1 \<and>
         (m1 = ''100'' @ m2 \<or>
          (\<exists>m3. ((\<exists>c. m1 = c # m3 \<and> ?r19 c) \<or> m3 = m1) \<and>
                (\<exists>c. m3 = c # m2 \<and> in_class Digit c))) \<and>
         m2 = ''%)'' @ t"
      using x by blast
  qed
  finally show ?thesis .
qed

lemma re_search_progress:
  "re_search progress_regexp s \<longleftrightarrow> (\<exists>n pre suf. n \<le> 100 \<and> s = pre @ progress_marker n @ suf)"
proof -
  have "re_search progress_regexp s \<longleftrightarrow>
      (\<exists>pre x. s = pre @ x \<and> (\<exists>N t. x = ''('' @ N @ ''%)'' @ t \<and> (\<exists>n. n \<le> 100 \<and> N = decimal n)))"
    unfolding re_search_iff rmatch_progress progress_number_decimal ..
  also have "\<dots> \<longleftrightarrow> (\<exists>n pre suf. n \<le> 100 \<and> s = pre @ (''('' @ decimal n @ ''%)'') @ suf)"
    by (simp only: append_assoc) blast
  finally show ?thesis unfolding progress_marker_def .
qed



section \<open>Facts about images\<close>

lemma half_sum: "(a::nat) \<le> w \<Longrightarrow> b \<le> h \<Longrightarrow>
   a * b + (w - a) * b + a * (h - b) + (w - a) * (h - b) = w * h"
proof -
  assume "a \<le> w" "b \<le> h"
  then obtain a' b' where "w = a + a'" "h = b + b'"
    by (metis le_Suc_ex)
  then show ?thesis by (simp add: algebra_simps)
qed

section \<open>Facts about the extractor\<close>

lemma from_item_Cons: "from_item elems m \<Longrightarrow> from_item (e # elems) m"
  unfolding from_item_def by (meson list.set_intros(2))

lemma extract_loop_images:
  "extract_loop elems acc = Inr ms \<Longrightarrow>
     \<exists>added. ms = acc @ added \<and> length added = length (filter has_id_and_image elems) \<and>
       list_all (from_item elems) added"
proof (induction elems arbitrary: acc)
  case Nil
  then show ?case by simp
next
  case (Cons e elems)
  show ?case
  proof (cases "has_id_and_image e")
    case False
    then have "extract_loop elems acc = Inr ms"
      using Cons.prems
      by (auto simp: has_id_and_image_def split: sum.splits option.splits if_splits)
    from Cons.IH [OF this] obtain added where a: "ms = acc @ added"
      "length added = length (filter has_id_and_image elems)" "list_all (from_item elems) added"
      by blast
    from a(3) have "list_all (from_item (e # elems)) added"
      by (auto simp: list_all_iff intro: from_item_Cons)
    with a(1,2) False show ?thesis by auto
  next
    case True
    then obtain i u t where e: "get_attribute_id e = Inr (Some i)" "get_image_url e = Inr u"
      "u \<noteq> []" "content_div_text e = Inr t"
      "extract_loop elems (acc @ [\<lparr>id' = i, content = t, images = [u]\<rparr>]) = Inr ms"
      using Cons.prems
      by (auto simp: has_id_and_image_def split: sum.splits option.splits if_splits)
    from Cons.IH [OF e(5)] obtain added where a:
      "ms = (acc @ [\<lparr>id' = i, content = t, images = [u]\<rparr>]) @ added"
      "length added = length (filter has_id_and_image elems)"
      "list_all (from_item elems) added"
      by blast
    let ?m = "\<lparr>id' = i, content = t, images = [u]\<rparr>"
    have "from_item (e # elems) ?m"
      unfolding from_item_def using e(1-4) by (intro exI [of _ e] exI [of _ u]) simp
    moreover from a(3) have "list_all (from_item (e # elems)) added"
      by (auto simp: list_all_iff intro: from_item_Cons)
    ultimately have "list_all (from_item (e # elems)) (?m # added)" by simp
    moreover have "ms = acc @ (?m # added)" using a(1) by simp
    moreover have "length (?m # added) = length (filter has_id_and_image (e # elems))"
      using a(2) True by simp
    ultimately show ?thesis by blast
  qed
qed

section \<open>Facts about the waiting loop\<close>





lemma scan_messages_Cons:
  "scan_messages w old prompt (m # ms) fs =
     (if accepted old prompt m then Some (download_and_split w m fs)
      else scan_messages w old prompt ms fs)"
proof (cases "classify_midjourney_message m")
  case None
  then show ?thesis by (simp add: accepted_def)
next
  case (Some c)
  show ?thesis
  proof (cases "images m")
    case Nil
    then show ?thesis by (simp add: accepted_def)
  next
    case (Cons u us)
    then show ?thesis using Some by (cases c) (simp_all add: accepted_def)
  qed
qed

lemma scan_messages_find:
  "scan_messages w old prompt ms fs =
     map_option (\<lambda>m. download_and_split w m fs) (find (accepted old prompt) ms)"
proof (induction ms)
  case Nil
  show ?case by simp
next
  case (Cons m ms)
  then show ?case by (simp only: scan_messages_Cons find.simps split: if_splits) simp
qed






lemma download_and_split_fails:
  assumes "images m = url # rest"
    and "requests_get w url = Inl e \<or>
         (\<exists>resp. requests_get w url = Inr resp \<and> image_open w (response_content resp) = Inl e)"
  shows "download_and_split w m fs = (Inl e, fs)"
  using assms by (auto simp: download_and_split_def)


lemma wait_for_image_first_accepted:
  assumes "n < polls"
    and "\<forall>i<n. \<exists>earlier. extract_messages (page_at w (k + i)) = Inr earlier \<and>
                 find (accepted old prompt) earlier = None"
    and "extract_messages (page_at w (k + n)) = Inr ms"
    and "find (accepted old prompt) ms = Some m"
  shows "wait_for_image polls w k old prompt fs = Some (download_and_split w m fs)"
  using assms
proof (induction n arbitrary: k polls)
  case 0
  then obtain p where "polls = Suc p" by (cases polls) auto
  with 0 show ?case by (simp add: scan_messages_find)
next
  case (Suc n)
  then obtain p where p: "polls = Suc p" "n < p" by (cases polls) auto
  from Suc.prems(2) obtain earlier where e: "extract_messages (page_at w (k + 0)) = Inr earlier"
    "find (accepted old prompt) earlier = None"
    by blast
  have "\<forall>i<n. \<exists>earlier. extract_messages (page_at w (Suc k + i)) = Inr earlier \<and>
                 find (accepted old prompt) earlier = None"
  proof (intro allI impI)
    fix i assume "i < n"
    then have "Suc i < Suc n" by simp
    with Suc.prems(2) have "\<exists>earlier. extract_messages (page_at w (k + Suc i)) = Inr earlier \<and>
                 find (accepted old prompt) earlier = None" by blast
    then show "\<exists>earlier. extract_messages (page_at w (Suc k + i)) = Inr earlier \<and>
                 find (accepted old prompt) earlier = None" by simp
  qed
  moreover have "extract_messages (page_at w (Suc k + n)) = Inr ms" using Suc.prems(3) by simp
  ultimately have "wait_for_image p w (Suc k) old prompt fs = Some (download_and_split w m fs)"
    using Suc.IH [OF p(2) _ _ Suc.prems(4)] by blast
  then show ?case using e p(1) by (simp add: scan_messages_find)
qed

section \<open>Facts about replacing one URL by another\<close>























section \<open>The prompt matcher and the normal form\<close>

text \<open>
  C1. For every prompt and every message content, the matcher answers true exactly
  when the normal form of the prompt occurs in the normal form of the content, where
  the normal form is the lower-cased text with every URL run (an \<open>http://\<close> or
  \<open>https://\<close> run without whitespace, with its optional opening angle bracket)
  replaced by the fixed token \<open><URL>\<close>.
\<close>

theorem matches_iff_normalized_substring:
  "match_mid_journey_prompt_ignoring_urls prompt message_content \<longleftrightarrow>
     (\<exists>pre suf. spec_normalize message_content = pre @ spec_normalize prompt @ suf)"
  using matches_normal_form [of prompt message_content] by (simp add: is_substring_def)

theorem matches_iff_normalized_substring_witness:
  "match_mid_journey_prompt_ignoring_urls ''A cat https://x.com/a'' ''a cat <HTTPS://x.com/b> - @alice (''
   \<and> (\<exists>pre suf. spec_normalize ''a cat <HTTPS://x.com/b> - @alice ('' =
         pre @ spec_normalize ''A cat https://x.com/a'' @ suf)"
proof -
  have "match_mid_journey_prompt_ignoring_urls ''A cat https://x.com/a''
          ''a cat <HTTPS://x.com/b> - @alice (''"
    by code_simp
  then show ?thesis
    using matches_iff_normalized_substring
      [of "''A cat https://x.com/a''" "''a cat <HTTPS://x.com/b> - @alice (''"]
    by simp
qed

section \<open>Classification\<close>

text \<open>
  C2. A message whose content contains \<open>(N%)\<close>, with \<open>N\<close> the decimal numeral of an
  integer from 0 to 100, is classified as nothing, whatever its images and the rest of
  its content are.
\<close>

theorem progress_marker_classified_none:
  assumes "n \<le> 100"
    and "content message = pre @ ''('' @ decimal n @ ''%)'' @ suf"
  shows "classify_midjourney_message message = None"
proof -
  have "content message = pre @ progress_marker n @ suf"
    using assms(2) by (simp add: progress_marker_def)
  with assms(1) have "re_search progress_regexp (content message)"
    unfolding re_search_progress by blast
  then show ?thesis by (simp add: classify_midjourney_message_def)
qed

theorem progress_marker_classified_none_witness:
  "(100::nat) \<le> 100 \<and>
   content \<lparr>id' = ''9'', content = ''**a cat** - Image #2 <@alice> (100%) (fast)'',
            images = [''https://cdn/x.png'']\<rparr> =
     ''**a cat** - Image #2 <@alice> '' @ ''('' @ decimal 100 @ ''%)'' @ '' (fast)'' \<and>
   classify_midjourney_message
     \<lparr>id' = ''9'', content = ''**a cat** - Image #2 <@alice> (100%) (fast)'',
      images = [''https://cdn/x.png'']\<rparr> = None"
proof -
  let ?m = "\<lparr>id' = ''9'', content = ''**a cat** - Image #2 <@alice> (100%) (fast)'',
            images = [''https://cdn/x.png'']\<rparr>"
  have a: "(100::nat) \<le> 100" by simp
  have b: "content ?m = ''**a cat** - Image #2 <@alice> '' @ ''('' @ decimal 100 @ ''%)'' @ '' (fast)''"
    by (simp add: decimal_100)
  show ?thesis using a b progress_marker_classified_none [OF a b] by simp
qed

text \<open>
  C3. A message without images is classified as nothing: neither as an upscale nor as
  a grid, whatever its content is.
\<close>

theorem no_images_classified_none:
  assumes "images message = []"
  shows "classify_midjourney_message message = None"
  using assms by (simp add: classify_midjourney_message_def)

theorem no_images_classified_none_witness:
  "images \<lparr>id' = ''9'', content = ''a cat** - Image #2 <@alice>'', images = []\<rparr> = [] \<and>
   classify_midjourney_message
     \<lparr>id' = ''9'', content = ''a cat** - Image #2 <@alice>'', images = []\<rparr> = None"
proof -
  have a: "images \<lparr>id' = ''9'', content = ''a cat** - Image #2 <@alice>'', images = []\<rparr> = []"
    by simp
  show ?thesis using a no_images_classified_none [OF a] by simp
qed




section \<open>The image splitter\<close>

text \<open>
  C5. For an image of width \<open>W\<close> and height \<open>H\<close>, the splitter returns exactly four
  images, in the order top-left, top-right, bottom-left, bottom-right: their sizes
  are \<open>(W div 2, H div 2)\<close>, \<open>(W - W div 2, H div 2)\<close>, \<open>(W div 2, H - H div 2)\<close>
  and \<open>(W - W div 2, H - H div 2)\<close>, each shows the pixels of the source from its own
  corner on, and the four pixel counts add up to \<open>W * H\<close>. An image of 101 by 101
  gives 50 by 50, 51 by 50, 50 by 51 and 51 by 51.
\<close>

theorem split_in_four_quadrants:
  "length (split_in_four img) = 4 \<and>
   map image_size (split_in_four img) =
     [(width img div 2, height img div 2),
      (width img - width img div 2, height img div 2),
      (width img div 2, height img - height img div 2),
      (width img - width img div 2, height img - height img div 2)] \<and>
   map pixel_at (split_in_four img) =
     [(\<lambda>x y. pixel_at img x y),
      (\<lambda>x y. pixel_at img (width img div 2 + x) y),
      (\<lambda>x y. pixel_at img x (height img div 2 + y)),
      (\<lambda>x y. pixel_at img (width img div 2 + x) (height img div 2 + y))] \<and>
   sum_list (map pixel_count (split_in_four img)) = width img * height img \<and>
   map image_size (split_in_four (img\<lparr>width := 101, height := 101\<rparr>)) =
     [(50, 50), (51, 50), (50, 51), (51, 51)]"
proof -
  have "width img div 2 \<le> width img" "height img div 2 \<le> height img" by simp_all
  from half_sum [OF this]
  show ?thesis
    by (simp add: split_in_four_def image_size_def crop_def pixel_count_def)
qed

theorem split_in_four_quadrants_witness:
  "map image_size (split_in_four \<lparr>width = 101, height = 101, pixel_at = (\<lambda>x y. x + 101 * y)\<rparr>) =
     [(50, 50), (51, 50), (50, 51), (51, 51)] \<and>
   sum_list (map pixel_count
     (split_in_four \<lparr>width = 101, height = 101, pixel_at = (\<lambda>x y. x + 101 * y)\<rparr>)) = 10201"
  using split_in_four_quadrants [of "\<lparr>width = 101, height = 101, pixel_at = (\<lambda>x y. x + 101 * y)\<rparr>"]
  by simp

section \<open>Exchanging URLs\<close>





section \<open>The waiting loop\<close>




text \<open>
  C8, as stated: a non-success response to the fetch of the final image makes the call
  fail. The source never reads the status of the response. Here the server answers 404
  with a body that decodes as an image, and the call returns four paths.
\<close>

theorem non_success_response_counterexample:
  "requests_get world_404 ''https://cdn.example/att/3/grid.png?ex=65'' =
     Inr \<lparr>status_code = 404, response_content = [137, 80, 78, 71]\<rparr> \<and>
   extract_messages (page_at world_404 0) = Inr [message_grid] \<and>
   map_option fst (wait_for_image 1 world_404 0 [] ''a cat'' Map.empty) =
     Some (Inr [''./images/grid.png-0.png'', ''./images/grid.png-1.png'',
                ''./images/grid.png-2.png'', ''./images/grid.png-3.png''])"
proof -
  have "map_option fst (wait_for_image 1 world_404 0 [] ''a cat'' Map.empty) =
     Some (Inr [''./images/grid.png-0.png'', ''./images/grid.png-1.png'',
                ''./images/grid.png-2.png'', ''./images/grid.png-3.png''])"
    by code_simp
  moreover have "extract_messages (page_at world_404 0) = Inr [message_grid]"
    by (simp add: extract_messages_def page_at_def world_404_def item_grid_def
        get_image_url_def message_grid_def)
  ultimately show ?thesis by (simp add: world_404_def)
qed

text \<open>
  C8, amended. When the fetch of the image of the first accepted message raises, or
  the bytes of the response do not decode as an image, the call ends with that error:
  it returns no path and has written no file.
\<close>

theorem failed_download_is_fatal:
  assumes "n < polls"
    and "\<forall>i<n. \<exists>earlier. extract_messages (page_at world (k + i)) = Inr earlier \<and>
                 find (accepted old_message_ids prompt) earlier = None"
    and "extract_messages (page_at world (k + n)) = Inr messages"
    and "find (accepted old_message_ids prompt) messages = Some message"
    and "images message = [download_url]"
    and "requests_get world download_url = Inl e \<or>
         (\<exists>response. requests_get world download_url = Inr response \<and>
            image_open world (response_content response) = Inl e)"
  shows "wait_for_image polls world k old_message_ids prompt fs = Some (Inl e, fs)"
  using wait_for_image_first_accepted [OF assms(1-4), of fs]
    download_and_split_fails [OF assms(5,6), of fs]
  by simp

theorem failed_download_is_fatal_witness:
  "(0::nat) < 1 \<and>
   extract_messages (page_at world_404_html 0) = Inr [message_grid] \<and>
   find (accepted [] ''a cat'') [message_grid] = Some message_grid \<and>
   images message_grid = [''https://cdn.example/att/3/grid.png?ex=65''] \<and>
   requests_get world_404_html ''https://cdn.example/att/3/grid.png?ex=65'' =
     Inr \<lparr>status_code = 404, response_content = [60, 104, 49, 62]\<rparr> \<and>
   image_open world_404_html [60, 104, 49, 62] = Inl UnidentifiedImageError \<and>
   wait_for_image 1 world_404_html 0 [] ''a cat'' Map.empty =
     Some (Inl UnidentifiedImageError, Map.empty)"
proof -
  let ?url = "''https://cdn.example/att/3/grid.png?ex=65''"
  let ?resp = "\<lparr>status_code = 404, response_content = [60, 104, 49, 62]\<rparr>"
  have a: "(0::nat) < 1" by simp
  have b: "\<forall>i<0. \<exists>earlier. extract_messages (page_at world_404_html (0 + i)) = Inr earlier \<and>
                 find (accepted [] ''a cat'') earlier = None"
    by simp
  have c: "extract_messages (page_at world_404_html (0 + 0)) = Inr [message_grid]"
    by (simp add: extract_messages_def page_at_def world_404_html_def item_grid_def
        get_image_url_def message_grid_def)
  have "accepted [] ''a cat'' message_grid" by code_simp
  then have d: "find (accepted [] ''a cat'') [message_grid] = Some message_grid" by simp
  have e: "images message_grid = [?url]" by (simp add: message_grid_def)
  have g: "requests_get world_404_html ?url = Inr ?resp" by (simp add: world_404_html_def)
  have h: "image_open world_404_html [60, 104, 49, 62] = Inl UnidentifiedImageError"
    by (simp add: world_404_html_def)
  have f: "requests_get world_404_html ?url = Inl UnidentifiedImageError \<or>
         (\<exists>response. requests_get world_404_html ?url = Inr response \<and>
            image_open world_404_html (response_content response) = Inl UnidentifiedImageError)"
    using g h by simp
  show ?thesis
    using a c d e g h failed_download_is_fatal [OF a b c d e f, of Map.empty] by simp
qed

section \<open>The extractor\<close>

text \<open>
  C9. The claim: a message item whose reads fail (stale or missing node) is skipped
  and the loop goes on; only a missing driver is fatal. The source guards the read of
  the id alone. On a page whose first item has an id but no content node,
  \<open>find_element\<close> raises, the extractor raises with it, and so does the waiting loop,
  although the item behind it is a finished grid.
\<close>

theorem extract_messages_missing_content_raises:
  "get_attribute_id item_no_content = Inr (Some ''chat-messages-2'') \<and>
   extract_messages (Some [item_no_content, item_grid]) = Inl NoSuchElementException \<and>
   wait_for_image 3 world_no_content 0 [] ''a cat'' Map.empty =
     Some (Inl NoSuchElementException, Map.empty)"
  by (simp add: extract_messages_def item_no_content_def item_grid_def world_no_content_def
      page_at_def numeral_3_eq_3)

text \<open>
  C10. Every message the extractor returns has exactly one image reference, and that
  reference is not empty; it stems from an item of the page whose id is present and
  whose image URL is not empty. Items without an id or without an image URL add no
  message: the result is as long as the list of the items that have both.
\<close>

theorem extracted_messages_have_one_image:
  assumes "extract_messages page = Inr messages"
  shows "(\<forall>message \<in> set messages.
            (\<exists>image_url. images message = [image_url] \<and> image_url \<noteq> []) \<and>
            length (images message) = 1 \<and>
            (\<exists>items item. page = Some items \<and> item \<in> set items \<and>
               get_attribute_id item = Inr (Some (id' message)) \<and>
               get_image_url item = Inr (hd (images message)))) \<and>
         (\<exists>items. page = Some items \<and>
            length messages = length (filter has_id_and_image items))"
proof -
  from assms obtain items where i: "page = Some items" "extract_loop items [] = Inr messages"
    by (auto simp: extract_messages_def split: option.splits)
  from extract_loop_images [OF i(2)] have
    l: "length messages = length (filter has_id_and_image items)"
    and f: "list_all (from_item items) messages"
    by auto
  have "\<forall>message \<in> set messages.
            (\<exists>image_url. images message = [image_url] \<and> image_url \<noteq> []) \<and>
            length (images message) = 1 \<and>
            (\<exists>items item. page = Some items \<and> item \<in> set items \<and>
               get_attribute_id item = Inr (Some (id' message)) \<and>
               get_image_url item = Inr (hd (images message)))"
  proof
    fix message assume "message \<in> set messages"
    with f have "from_item items message" by (simp add: list_all_iff)
    then obtain e u where "e \<in> set items" "u \<noteq> []" "images message = [u]"
      "get_attribute_id e = Inr (Some (id' message))" "get_image_url e = Inr u"
      unfolding from_item_def by blast
    then show "(\<exists>image_url. images message = [image_url] \<and> image_url \<noteq> []) \<and>
            length (images message) = 1 \<and>
            (\<exists>items item. page = Some items \<and> item \<in> set items \<and>
               get_attribute_id item = Inr (Some (id' message)) \<and>
               get_image_url item = Inr (hd (images message)))"
      using i(1) by auto
  qed
  with l i(1) show ?thesis by blast
qed

theorem extracted_messages_have_one_image_witness:
  "extract_messages (Some [item_stale_id, item_no_id, item_no_image, item_grid]) = Inr [message_grid] \<and>
   images message_grid = [''https://cdn.example/att/3/grid.png?ex=65''] \<and>
   length (images message_grid) = 1 \<and>
   length [message_grid] =
     length (filter has_id_and_image [item_stale_id, item_no_id, item_no_image, item_grid])"
proof -
  have a: "extract_messages (Some [item_stale_id, item_no_id, item_no_image, item_grid]) =
             Inr [message_grid]"
    by (simp add: extract_messages_def item_stale_id_def item_no_id_def item_no_image_def
        item_grid_def message_grid_def get_image_url_def)
  show ?thesis
    using a extracted_messages_have_one_image [OF a]
    by (simp add: message_grid_def)
qed


end
